theory Spec2Isabelle
  imports Complex_Main "HOL-Library.AList"
begin

section \<open>The order book of server/orderbook.js\<close>

text \<open>
  The class \<^verbatim>\<open>OrderBook\<close> is embedded with explicit state passing: every method takes
  the book and returns the updated book, its result and the trades it handed to
  \<^verbatim>\<open>_recordTrade\<close> (and so to the \<^verbatim>\<open>onTrade\<close> callback), in order.

  Conventions of the embedding:
  \<^item> JavaScript numbers are modelled as exact reals (the data model of the specification:
    prices and cash are real-valued). Rounding of IEEE doubles, \<^verbatim>\<open>NaN\<close> and the
    infinities are outside the model.
  \<^item> A JavaScript \<^verbatim>\<open>Map\<close> is an association list in insertion order:
    \<^verbatim>\<open>get\<close> is \<^const>\<open>map_of\<close>, \<^verbatim>\<open>set\<close> is \<^const>\<open>AList.update\<close> (replace in place, or
    append a new key at the end), \<^verbatim>\<open>delete\<close> is \<^const>\<open>AList.delete\<close>.
  \<^item> Arrays of orders are lists; an array that the code mutates in place while it sits in
    a map is written back to the map when the loop over it ends.
  \<^item> The \<^verbatim>\<open>ts\<close> fields hold \<^verbatim>\<open>Date.now()\<close>; no decision reads them and they are
    left out.
  \<^item> A side is the string \<^verbatim>\<open>'buy'\<close>, the string \<^verbatim>\<open>'sell'\<close>, or anything else: the
    code only ever tests \<^verbatim>\<open>side === 'buy'\<close> and \<^verbatim>\<open>side === 'sell'\<close>, and two of
    the three entry points are reachable with an unvalidated side.
  \<^item> Leading underscores of method names are dropped (\<^verbatim>\<open>_pos\<close> is \<open>pos\<close>).
\<close>

type_synonym userId = string

datatype side = Buy | Sell | Other

record order =
  o_id :: nat
  o_userId :: userId
  o_side :: side
  o_price :: real
  o_qty :: real
  o_leaves :: real

record position =
  qty :: real
  cash :: real

record trade =
  t_symbol :: string
  t_price :: real
  t_qty :: real
  t_buyer :: userId
  t_seller :: userId

type_synonym levels = "(real \<times> order list) list"

record orderBook =
  symbol :: string
  tickSize :: real
  posLimit :: real
  bids :: levels
  asks :: levels
  orderIdSeq :: nat
  positions :: "(userId \<times> position) list"
  trades :: "trade list"

text \<open>The constructors of \<^verbatim>\<open>Order\<close> and \<^verbatim>\<open>OrderBook\<close>.\<close>

definition newOrder :: "nat \<Rightarrow> userId \<Rightarrow> side \<Rightarrow> real \<Rightarrow> real \<Rightarrow> order" where
  "newOrder i u sd p n =
     \<lparr>o_id = i, o_userId = u, o_side = sd, o_price = p, o_qty = n, o_leaves = n\<rparr>"

definition newOrderBook :: "string \<Rightarrow> real \<Rightarrow> real \<Rightarrow> orderBook" where
  "newOrderBook symb tick plim =
     \<lparr>symbol = symb, tickSize = tick, posLimit = plim, bids = [], asks = [],
      orderIdSeq = 1, positions = [], trades = []\<rparr>"

subsection \<open>Book primitives\<close>

definition pushAtPrice :: "levels \<Rightarrow> real \<Rightarrow> order \<Rightarrow> levels" where
  "pushAtPrice m p ord =
     (let m1 = (if map_of m p = None then AList.update p [] m else m)
      in case map_of m1 p of
           None \<Rightarrow> m1
         | Some q \<Rightarrow> AList.update p (q @ [ord]) m1)"

definition bestBid :: "levels \<Rightarrow> real option" where
  "bestBid mapBids = (if length mapBids = 0 then None else Some (Max (set (map fst mapBids))))"

definition bestAsk :: "levels \<Rightarrow> real option" where
  "bestAsk mapAsks = (if length mapAsks = 0 then None else Some (Min (set (map fst mapAsks))))"

text \<open>\<^verbatim>\<open>Math.round\<close> rounds to the nearest integer, halves towards plus infinity.\<close>

definition math_round :: "real \<Rightarrow> int" where
  "math_round x = \<lfloor>x + 1 / 2\<rfloor>"

definition snapToTick :: "real \<Rightarrow> real \<Rightarrow> real" where
  "snapToTick px tick =
     (let t = max (1 / 1000000) (if tick = 0 then 1 / 100 else tick)
      in real_of_int (math_round (px / t)) * t)"

subsection \<open>The position ledger\<close>

text \<open>\<^verbatim>\<open>_pos\<close> creates the entry on first touch, so it returns the ledger as well.\<close>

definition pos :: "userId \<Rightarrow> (userId \<times> position) list \<Rightarrow> (userId \<times> position) list \<times> position" where
  "pos u ps =
     (case map_of ps u of
        None \<Rightarrow> (AList.update u \<lparr>qty = 0, cash = 0\<rparr> ps, \<lparr>qty = 0, cash = 0\<rparr>)
      | Some p \<Rightarrow> (ps, p))"

definition checkPosLimit :: "userId \<Rightarrow> side \<Rightarrow> real \<Rightarrow> orderBook \<Rightarrow> orderBook \<times> bool" where
  "checkPosLimit u sd incQty b =
     (let (ps, p) = pos u (positions b);
          newQty = (if sd = Buy then qty p + incQty else qty p - incQty)
      in (b\<lparr>positions := ps\<rparr>, \<bar>newQty\<bar> \<le> posLimit b))"

text \<open>One statement \<^verbatim>\<open>this._pos(u).field op= v\<close>: look the entry up, then assign the field.\<close>

definition modPos :: "userId \<Rightarrow> (position \<Rightarrow> position) \<Rightarrow> orderBook \<Rightarrow> orderBook" where
  "modPos u f b = (let (ps, p) = pos u (positions b) in b\<lparr>positions := AList.update u (f p) ps\<rparr>)"

text \<open>The four ledger statements of a fill, in the order of the source.\<close>

definition applyFill :: "userId \<Rightarrow> userId \<Rightarrow> real \<Rightarrow> real \<Rightarrow> orderBook \<Rightarrow> orderBook" where
  "applyFill buyer seller tradeQty tradePx b =
     (let b1 = modPos buyer (\<lambda>p. p\<lparr>qty := qty p + tradeQty\<rparr>) b;
          b2 = modPos buyer (\<lambda>p. p\<lparr>cash := cash p - tradeQty * tradePx\<rparr>) b1;
          b3 = modPos seller (\<lambda>p. p\<lparr>qty := qty p - tradeQty\<rparr>) b2;
          b4 = modPos seller (\<lambda>p. p\<lparr>cash := cash p + tradeQty * tradePx\<rparr>) b3
      in b4)"

text \<open>\<^verbatim>\<open>_recordTrade\<close> keeps the last 1000 trades; the callback is the caller's output list.\<close>

definition recordTrade :: "trade \<Rightarrow> orderBook \<Rightarrow> orderBook" where
  "recordTrade t b =
     (let ts = trades b @ [t]
      in b\<lparr>trades := (if length ts > 1000 then tl ts else ts)\<rparr>)"

subsection \<open>Matching\<close>

text \<open>
  One fill, as both \<^verbatim>\<open>_matchIncoming\<close> and \<^verbatim>\<open>takeAtPrice\<close> write it out: choose
  buyer and seller, post the four ledger statements, record the trade. \<open>sd\<close> and \<open>u\<close> are
  the side and user of the taker.
\<close>

definition fill :: "side \<Rightarrow> userId \<Rightarrow> order \<Rightarrow> real \<Rightarrow> real \<Rightarrow> orderBook \<Rightarrow> orderBook \<times> trade" where
  "fill sd u maker tradeQty tradePx b =
     (let buyer = (if sd = Buy then u else o_userId maker);
          seller = (if sd = Sell then u else o_userId maker);
          b1 = applyFill buyer seller tradeQty tradePx b;
          t = \<lparr>t_symbol = symbol b, t_price = tradePx, t_qty = tradeQty,
               t_buyer = buyer, t_seller = seller\<rparr>
      in (recordTrade t b1, t))"

text \<open>
  The inner loop of \<^verbatim>\<open>_matchIncoming\<close> over the queue \<open>q\<close> of the level at price \<open>px\<close>.
  It returns the incoming order, the queue, the book and the trades recorded.
\<close>

function matchLevel ::
  "real \<Rightarrow> order \<Rightarrow> order list \<Rightarrow> orderBook \<Rightarrow> order \<times> order list \<times> orderBook \<times> trade list" where
  "matchLevel px ord q b =
     (case q of
        [] \<Rightarrow> (ord, q, b, [])
      | maker # rest \<Rightarrow>
          if \<not> o_leaves ord > 0 then (ord, q, b, [])
          else
            (let tradeQty = min (o_leaves ord) (o_leaves maker);
                 (b1, ok) = checkPosLimit (o_userId ord) (o_side ord) tradeQty b
             in if \<not> ok then (ord\<lparr>o_leaves := 0\<rparr>, q, b1, [])
                else
                  (let ord' = ord\<lparr>o_leaves := o_leaves ord - tradeQty\<rparr>;
                       maker' = maker\<lparr>o_leaves := o_leaves maker - tradeQty\<rparr>;
                       (b2, t) = fill (o_side ord) (o_userId ord) maker tradeQty px b1;
                       q' = (if o_leaves maker' = 0 then rest else maker' # rest);
                       (ord'', q'', b3, ts) = matchLevel px ord' q' b2
                   in (ord'', q'', b3, t # ts))))"
  by pat_completeness auto
termination
  by (relation "measure (\<lambda>(px, ord, q, b). 2 * length q + (if o_leaves ord > 0 then 1 else 0))")
     (auto simp: min_def split: if_splits)

declare matchLevel.simps [simp del]

text \<open>The parts of one iteration, named for the proofs.\<close>

definition limitOk :: "side \<Rightarrow> userId \<Rightarrow> real \<Rightarrow> order \<Rightarrow> orderBook \<Rightarrow> bool" where
  "limitOk sd u n maker b = snd (checkPosLimit u sd (min n (o_leaves maker)) b)"

definition afterCheck :: "side \<Rightarrow> userId \<Rightarrow> real \<Rightarrow> order \<Rightarrow> orderBook \<Rightarrow> orderBook" where
  "afterCheck sd u n maker b = fst (checkPosLimit u sd (min n (o_leaves maker)) b)"

definition afterFill :: "real \<Rightarrow> side \<Rightarrow> userId \<Rightarrow> real \<Rightarrow> order \<Rightarrow> orderBook \<Rightarrow> orderBook" where
  "afterFill px sd u n maker b =
     fst (fill sd u maker (min n (o_leaves maker)) px (afterCheck sd u n maker b))"

definition fillTrade :: "real \<Rightarrow> side \<Rightarrow> userId \<Rightarrow> real \<Rightarrow> order \<Rightarrow> orderBook \<Rightarrow> trade" where
  "fillTrade px sd u n maker b =
     snd (fill sd u maker (min n (o_leaves maker)) px (afterCheck sd u n maker b))"

definition restQueue :: "real \<Rightarrow> order \<Rightarrow> order list \<Rightarrow> order list" where
  "restQueue n maker rest =
     (if o_leaves maker - min n (o_leaves maker) = 0 then rest
      else maker\<lparr>o_leaves := o_leaves maker - min n (o_leaves maker)\<rparr> # rest)"

definition restOrder :: "order \<Rightarrow> order \<Rightarrow> order" where
  "restOrder ord maker = ord\<lparr>o_leaves := o_leaves ord - min (o_leaves ord) (o_leaves maker)\<rparr>"

lemma matchLevel_Nil: "matchLevel px ord [] b = (ord, [], b, [])"
  by (subst matchLevel.simps) simp

lemma matchLevel_Cons:
  "matchLevel px ord (maker # rest) b =
     (if \<not> o_leaves ord > 0 then (ord, maker # rest, b, [])
      else if \<not> limitOk (o_side ord) (o_userId ord) (o_leaves ord) maker b
        then (ord\<lparr>o_leaves := 0\<rparr>, maker # rest,
              afterCheck (o_side ord) (o_userId ord) (o_leaves ord) maker b, [])
      else
        (case matchLevel px (restOrder ord maker) (restQueue (o_leaves ord) maker rest)
                (afterFill px (o_side ord) (o_userId ord) (o_leaves ord) maker b) of
           (ord'', q'', b3, ts) \<Rightarrow>
             (ord'', q'', b3,
              fillTrade px (o_side ord) (o_userId ord) (o_leaves ord) maker b # ts)))"
  by (subst matchLevel.simps)
     (simp add: Let_def limitOk_def afterCheck_def afterFill_def fillTrade_def restQueue_def
        restOrder_def split: prod.splits)

lemma matchLevel_cases [case_names Nil Done Reject Fill]:
  assumes "\<And>ord b. P ord [] b"
    and "\<And>ord maker rest b. \<not> o_leaves ord > 0 \<Longrightarrow> P ord (maker # rest) b"
    and "\<And>ord maker rest b. o_leaves ord > 0 \<Longrightarrow>
           \<not> limitOk (o_side ord) (o_userId ord) (o_leaves ord) maker b \<Longrightarrow>
           P ord (maker # rest) b"
    and "\<And>ord maker rest b. o_leaves ord > 0 \<Longrightarrow>
           limitOk (o_side ord) (o_userId ord) (o_leaves ord) maker b \<Longrightarrow>
           P (restOrder ord maker) (restQueue (o_leaves ord) maker rest)
             (afterFill px (o_side ord) (o_userId ord) (o_leaves ord) maker b) \<Longrightarrow>
           P ord (maker # rest) b"
  shows "P ord q b"
  using assms
proof (induction px ord q b rule: matchLevel.induct)
  case (1 px ord q b)
  note r_nil = "1.prems"(1) and r_done = "1.prems"(2) and r_reject = "1.prems"(3)
    and r_fill = "1.prems"(4)
  show ?case
  proof (cases q)
    case Nil
    then show ?thesis by (simp add: r_nil)
  next
    case (Cons maker rest)
    show ?thesis
    proof (cases "o_leaves ord > 0")
      case False
      then show ?thesis by (simp add: Cons r_done)
    next
      case True
      show ?thesis
      proof (cases "limitOk (o_side ord) (o_userId ord) (o_leaves ord) maker b")
        case False
        with True show ?thesis by (simp add: Cons r_reject)
      next
        case ok: True
        obtain b1 okv where c:
          "checkPosLimit (o_userId ord) (o_side ord) (min (o_leaves ord) (o_leaves maker)) b
             = (b1, okv)"
          by (cases "checkPosLimit (o_userId ord) (o_side ord) (min (o_leaves ord) (o_leaves maker)) b")
        obtain b2 t where f:
          "fill (o_side ord) (o_userId ord) maker (min (o_leaves ord) (o_leaves maker)) px b1
             = (b2, t)"
          by (cases "fill (o_side ord) (o_userId ord) maker (min (o_leaves ord) (o_leaves maker)) px b1")
        from ok c have okv by (simp add: limitOk_def)
        have "P (restOrder ord maker) (restQueue (o_leaves ord) maker rest)
                (afterFill px (o_side ord) (o_userId ord) (o_leaves ord) maker b)"
          using "1.IH" [OF Cons _ refl c [symmetric] refl _ refl refl f [symmetric] refl refl
                  r_nil r_done r_reject r_fill]
            True \<open>okv\<close> c f
          by (simp add: restOrder_def restQueue_def afterFill_def afterCheck_def)
        with True ok show ?thesis unfolding Cons by (rule r_fill)
      qed
    qed
  qed
qed

lemma matchLevel_finished:
  "matchLevel px ord q b = (ord', q', b', ts) \<Longrightarrow> q' = [] \<or> \<not> o_leaves ord' > 0"
proof (induction ord q b arbitrary: ts rule: matchLevel_cases [where px = px])
  case (Fill ord maker rest b)
  then show ?case by (auto simp: matchLevel_Cons split: prod.splits)
qed (auto simp: matchLevel_Nil matchLevel_Cons)

lemma pos_fst_eq: "fst (pos u ps) = ps \<or> fst (pos u ps) = AList.update u \<lparr>qty = 0, cash = 0\<rparr> ps"
  by (simp add: pos_def split: option.splits)

lemma afterCheck_frame:
  "bids (afterCheck sd u n maker b) = bids b" "asks (afterCheck sd u n maker b) = asks b"
  "symbol (afterCheck sd u n maker b) = symbol b" "tickSize (afterCheck sd u n maker b) = tickSize b"
  "posLimit (afterCheck sd u n maker b) = posLimit b"
  "orderIdSeq (afterCheck sd u n maker b) = orderIdSeq b"
  "trades (afterCheck sd u n maker b) = trades b"
  by (simp_all add: afterCheck_def checkPosLimit_def Let_def split: prod.splits)

lemma modPos_frame:
  "bids (modPos u f b) = bids b" "asks (modPos u f b) = asks b"
  "symbol (modPos u f b) = symbol b" "tickSize (modPos u f b) = tickSize b"
  "posLimit (modPos u f b) = posLimit b" "orderIdSeq (modPos u f b) = orderIdSeq b"
  "trades (modPos u f b) = trades b"
  by (simp_all add: modPos_def Let_def split: prod.splits)

lemma afterFill_frame:
  "bids (afterFill px sd u n maker b) = bids b" "asks (afterFill px sd u n maker b) = asks b"
  "symbol (afterFill px sd u n maker b) = symbol b"
  "tickSize (afterFill px sd u n maker b) = tickSize b"
  "posLimit (afterFill px sd u n maker b) = posLimit b"
  "orderIdSeq (afterFill px sd u n maker b) = orderIdSeq b"
  by (simp_all add: afterFill_def fill_def applyFill_def recordTrade_def Let_def
        modPos_frame afterCheck_frame)

lemma matchLevel_frame:
  "matchLevel px ord q b = (ord', q', b', ts) \<Longrightarrow>
     bids b' = bids b \<and> asks b' = asks b \<and> symbol b' = symbol b \<and> tickSize b' = tickSize b \<and>
     posLimit b' = posLimit b \<and> orderIdSeq b' = orderIdSeq b \<and>
     o_side ord' = o_side ord \<and> o_userId ord' = o_userId ord \<and> o_price ord' = o_price ord \<and>
     o_id ord' = o_id ord \<and> o_qty ord' = o_qty ord"
proof (induction ord q b arbitrary: ts rule: matchLevel_cases [where px = px])
  case (Fill ord maker rest b)
  from Fill.prems Fill.hyps obtain ts' where
    "matchLevel px (restOrder ord maker) (restQueue (o_leaves ord) maker rest)
       (afterFill px (o_side ord) (o_userId ord) (o_leaves ord) maker b) = (ord', q', b', ts')"
    by (auto simp: matchLevel_Cons split: prod.splits)
  from Fill.IH [OF this] show ?case
    by (simp add: afterFill_frame restOrder_def)
qed (auto simp: matchLevel_Nil matchLevel_Cons afterCheck_frame)

lemma length_delete_present:
  "map_of m k = Some v \<Longrightarrow> length (AList.delete k m) < length m"
  by (induction m) (auto simp: less_Suc_eq_le AList.length_delete_le split: if_splits)

lemma length_update_present:
  "map_of m k = Some v \<Longrightarrow> length (AList.update k w m) = length m"
  by (induction m) (auto split: if_splits)

text \<open>
  \<^verbatim>\<open>makerMap\<close> is a reference to one of the two maps of the book; reading it and
  storing through it are written out.
\<close>

definition makerMapOf :: "side \<Rightarrow> orderBook \<Rightarrow> levels" where
  "makerMapOf sd b = (if sd = Buy then asks b else bids b)"

definition setMakerMap :: "side \<Rightarrow> levels \<Rightarrow> orderBook \<Rightarrow> orderBook" where
  "setMakerMap sd m b = (if sd = Buy then b\<lparr>asks := m\<rparr> else b\<lparr>bids := m\<rparr>)"

text \<open>
  After the loop over a queue: \<^verbatim>\<open>if (q.length === 0) makerMap.delete(px)\<close>; a queue
  that is not empty was mutated in place and is stored at its key.
\<close>

definition storeLevel :: "real \<Rightarrow> order list \<Rightarrow> levels \<Rightarrow> levels" where
  "storeLevel px q m = (if length q = 0 then AList.delete px m else AList.update px q m)"

text \<open>The outer loop of \<^verbatim>\<open>_matchIncoming\<close>: one level per iteration, best price first.\<close>

function matchIncoming :: "order \<Rightarrow> orderBook \<Rightarrow> order \<times> orderBook \<times> trade list" where
  "matchIncoming ord b =
     (let makerMap = makerMapOf (o_side ord) b
      in if \<not> (o_leaves ord > 0 \<and> length makerMap > 0) then (ord, b, [])
         else
           (case (if o_side ord = Buy then bestAsk makerMap else bestBid makerMap) of
              None \<Rightarrow> (ord, b, [])
            | Some px \<Rightarrow>
                (let cross = ((o_side ord = Buy \<and> o_price ord \<ge> px) \<or>
                              (o_side ord = Sell \<and> o_price ord \<le> px))
                 in if \<not> cross then (ord, b, [])
                    else
                      (case map_of makerMap px of
                         None \<Rightarrow> (ord, b, [])
                       | Some q \<Rightarrow>
                           (let (ord1, q1, b1, ts1) = matchLevel px ord q b;
                                b2 = setMakerMap (o_side ord) (storeLevel px q1 makerMap) b1;
                                (ord2, b3, ts2) = matchIncoming ord1 b2
                            in (ord2, b3, ts1 @ ts2))))))"
  by pat_completeness auto
termination
proof (relation "measure (\<lambda>(ord, b). 2 * length (makerMapOf (o_side ord) b)
                                     + (if o_leaves ord > 0 then 1 else 0))", goal_cases)
  case 1
  show ?case by simp
next
  case (2 ord b makerMap px cross q x ord1 y q1 z b1 ts1 b2)
  from 2 have ml: "matchLevel px ord q b = (ord1, q1, b1, ts1)" by simp
  from matchLevel_frame [OF ml] 2
  have mm: "makerMapOf (o_side ord1) b2 = storeLevel px q1 makerMap"
    by (auto simp: makerMapOf_def setMakerMap_def)
  from 2 have present: "map_of makerMap px = Some q" by simp
  from 2 have pos: "o_leaves ord > 0" by simp
  show ?case
  proof (cases "q1 = []")
    case True
    with length_delete_present [OF present] mm "2"(1) pos show ?thesis
      by (simp add: storeLevel_def)
  next
    case False
    with matchLevel_finished [OF ml] have "\<not> o_leaves ord1 > 0" by simp
    with False length_update_present [OF present, of q1] mm "2"(1) pos show ?thesis
      by (simp add: storeLevel_def)
  qed
qed

declare matchIncoming.simps [simp del]

text \<open>The test at the head of the outer loop: the level to match next, if the loop goes on.\<close>

definition nextLevel :: "order \<Rightarrow> orderBook \<Rightarrow> (real \<times> order list) option" where
  "nextLevel ord b =
     (let makerMap = makerMapOf (o_side ord) b
      in if \<not> (o_leaves ord > 0 \<and> length makerMap > 0) then None
         else
           (case (if o_side ord = Buy then bestAsk makerMap else bestBid makerMap) of
              None \<Rightarrow> None
            | Some px \<Rightarrow>
                if \<not> ((o_side ord = Buy \<and> o_price ord \<ge> px) \<or>
                        (o_side ord = Sell \<and> o_price ord \<le> px)) then None
                else (case map_of makerMap px of None \<Rightarrow> None | Some q \<Rightarrow> Some (px, q))))"

text \<open>
  The book at the end of one iteration of the outer loop: the queue \<open>q1\<close> that the inner
  loop left is stored in the maker side of \<open>b\<close>, in the book \<open>b1\<close> the inner loop returned.
\<close>

definition afterLevel :: "order \<Rightarrow> real \<Rightarrow> order list \<Rightarrow> orderBook \<Rightarrow> orderBook \<Rightarrow> orderBook" where
  "afterLevel ord px q1 b b1 =
     setMakerMap (o_side ord) (storeLevel px q1 (makerMapOf (o_side ord) b)) b1"

subsection \<open>The public operations\<close>

datatype placeResult = Rejected string | Accepted nat

definition placeLimit ::
  "userId \<Rightarrow> side \<Rightarrow> real \<Rightarrow> real \<Rightarrow> orderBook \<Rightarrow> orderBook \<times> placeResult \<times> trade list" where
  "placeLimit u sd price n b =
     (let (b0, ok) = checkPosLimit u sd n b
      in if \<not> ok then (b0, Rejected ''pos_limit'', [])
         else
           (let i = orderIdSeq b0;
                b1 = b0\<lparr>orderIdSeq := i + 1\<rparr>;
                ord = newOrder i u sd (snapToTick price (tickSize b1)) n;
                (ord', b2, ts) = matchIncoming ord b1;
                b3 = (if o_leaves ord' > 0
                      then (if sd = Buy
                            then b2\<lparr>bids := pushAtPrice (bids b2) (o_price ord') ord'\<rparr>
                            else b2\<lparr>asks := pushAtPrice (asks b2) (o_price ord') ord'\<rparr>)
                      else b2)
            in (b3, Accepted i, ts)))"

definition cancelAtPrice :: "userId \<Rightarrow> side \<Rightarrow> real \<Rightarrow> orderBook \<Rightarrow> orderBook \<times> nat" where
  "cancelAtPrice u sd price b =
     (let m = (if sd = Buy then bids b else asks b);
          px = snapToTick price (tickSize b)
      in case map_of m px of
           None \<Rightarrow> (b, 0)
         | Some q \<Rightarrow>
             (let beforeLen = length q;
                  filtered = filter (\<lambda>x. o_userId x \<noteq> u) q;
                  removed = beforeLen - length filtered;
                  m' = (if length filtered > 0 then AList.update px filtered m
                        else AList.delete px m)
              in ((if sd = Buy then b\<lparr>bids := m'\<rparr> else b\<lparr>asks := m'\<rparr>), removed)))"

text \<open>The loop of \<^verbatim>\<open>takeAtPrice\<close> over the queue of the chosen level.\<close>

function takeLevel ::
  "userId \<Rightarrow> side \<Rightarrow> real \<Rightarrow> real \<Rightarrow> order list \<Rightarrow> orderBook
     \<Rightarrow> real \<times> order list \<times> orderBook \<times> trade list" where
  "takeLevel u sd px remaining q b =
     (case q of
        [] \<Rightarrow> (remaining, q, b, [])
      | maker # rest \<Rightarrow>
          if \<not> remaining > 0 then (remaining, q, b, [])
          else
            (let tradeQty = min remaining (o_leaves maker);
                 (b1, ok) = checkPosLimit u sd tradeQty b
             in if \<not> ok then (remaining, q, b1, [])
                else
                  (let maker' = maker\<lparr>o_leaves := o_leaves maker - tradeQty\<rparr>;
                       remaining' = remaining - tradeQty;
                       (b2, t) = fill sd u maker tradeQty px b1;
                       q' = (if o_leaves maker' = 0 then rest else maker' # rest);
                       (remaining'', q'', b3, ts) = takeLevel u sd px remaining' q' b2
                   in (remaining'', q'', b3, t # ts))))"
  by pat_completeness auto
termination
  by (relation "measure (\<lambda>(u, sd, px, remaining, q, b).
                  2 * length q + (if remaining > 0 then 1 else 0))")
     (auto simp: min_def split: if_splits)

declare takeLevel.simps [simp del]

text \<open>\<^verbatim>\<open>takeAtPrice\<close> returns the number \<^verbatim>\<open>0\<close> or the boolean \<^verbatim>\<open>true\<close>.\<close>

datatype takeResult = Ret0 | RetTrue

definition takeAtPrice ::
  "userId \<Rightarrow> side \<Rightarrow> real \<Rightarrow> real \<Rightarrow> orderBook \<Rightarrow> orderBook \<times> takeResult \<times> trade list" where
  "takeAtPrice u sd price maxQty b =
     (let makerMap = makerMapOf sd b;
          px = snapToTick price (tickSize b)
      in case map_of makerMap px of
           None \<Rightarrow> (b, Ret0, [])
         | Some q \<Rightarrow>
             (let remaining = max 0 (if maxQty = 0 then 0 else maxQty)
              in if remaining = 0 then (b, Ret0, [])
                 else
                   (let (remaining', q', b1, ts) = takeLevel u sd px remaining q b;
                        b2 = setMakerMap sd (storeLevel px q' makerMap) b1
                    in (b2, RetTrue, ts))))"

text \<open>\<^verbatim>\<open>getPosPublic\<close> reads a position through \<^verbatim>\<open>_pos\<close>.\<close>

definition getPosPublic :: "userId \<Rightarrow> orderBook \<Rightarrow> orderBook \<times> position" where
  "getPosPublic u b = (let (ps, p) = pos u (positions b) in (b\<lparr>positions := ps\<rparr>, p))"

text \<open>A sequence of calls of the three public operations on one book.\<close>

datatype bookOp =
    OpPlaceLimit userId side real real
  | OpTakeAtPrice userId side real real
  | OpCancelAtPrice userId side real

fun applyOp :: "bookOp \<Rightarrow> orderBook \<Rightarrow> orderBook" where
  "applyOp (OpPlaceLimit u sd price n) b = fst (placeLimit u sd price n b)"
| "applyOp (OpTakeAtPrice u sd price maxQty) b = fst (takeAtPrice u sd price maxQty b)"
| "applyOp (OpCancelAtPrice u sd price) b = fst (cancelAtPrice u sd price b)"

fun runOps :: "bookOp list \<Rightarrow> orderBook \<Rightarrow> orderBook" where
  "runOps [] b = b"
| "runOps (c # cs) b = runOps cs (applyOp c b)"

section \<open>The session layer of server/index.js\<close>































section \<open>Properties\<close>

subsection \<open>Reading the book\<close>




text \<open>
  The orders resting at a price on the side that \<^verbatim>\<open>cancelAtPrice\<close> addresses (the bids for
  \<^verbatim>\<open>'buy'\<close>, the asks otherwise); no level, no orders.
\<close>

definition restingAt :: "side \<Rightarrow> real \<Rightarrow> orderBook \<Rightarrow> order list" where
  "restingAt sd px b =
     (case map_of (if sd = Buy then bids b else asks b) px of None \<Rightarrow> [] | Some q \<Rightarrow> q)"

text \<open>The side of the book that is not the maker side of a taker of side \<open>sd\<close>.\<close>

definition ownMapOf :: "side \<Rightarrow> orderBook \<Rightarrow> levels" where
  "ownMapOf sd b = (if sd = Buy then bids b else asks b)"

text \<open>No key of a side map holds an empty queue.\<close>

definition noEmptyLevel :: "levels \<Rightarrow> bool" where
  "noEmptyLevel m \<longleftrightarrow> (\<forall>e \<in> set m. snd e \<noteq> [])"

definition noEmptyLevels :: "orderBook \<Rightarrow> bool" where
  "noEmptyLevels b \<longleftrightarrow> noEmptyLevel (bids b) \<and> noEmptyLevel (asks b)"

subsection \<open>Replaying trades on the maker side\<close>

text \<open>
  To say at which price a fill happened relative to the book at that moment, the trades of
  one call are replayed on the maker side as it was before the call. \<open>bestOpp\<close> is the
  best price the match loop reads (\<^verbatim>\<open>bestAsk\<close> for a buy, \<^verbatim>\<open>bestBid\<close> otherwise),
  \<open>headUser\<close> the owner of the order at the head of a level, \<open>applyTrade\<close> the maker side
  after a fill: the head of the level at the trade's price loses the trade's quantity, leaves
  the queue when nothing is left of it, and the level is deleted when the queue is empty.
  \<open>makerPriced\<close> holds when every trade, in order, has the best opposite price of the
  replayed side as its price and the owner of the head of that level as its maker.
\<close>

definition bestOpp :: "side \<Rightarrow> levels \<Rightarrow> real option" where
  "bestOpp sd m = (if sd = Buy then bestAsk m else bestBid m)"

definition headUser :: "levels \<Rightarrow> real \<Rightarrow> userId option" where
  "headUser m px =
     (case map_of m px of
        None \<Rightarrow> None
      | Some q \<Rightarrow> (case q of [] \<Rightarrow> None | maker # rest \<Rightarrow> Some (o_userId maker)))"

definition applyTrade :: "trade \<Rightarrow> levels \<Rightarrow> levels" where
  "applyTrade t m =
     (case map_of m (t_price t) of
        None \<Rightarrow> m
      | Some q \<Rightarrow>
          (case q of
             [] \<Rightarrow> m
           | maker # rest \<Rightarrow> storeLevel (t_price t) (restQueue (t_qty t) maker rest) m))"

fun makerPriced :: "side \<Rightarrow> levels \<Rightarrow> trade list \<Rightarrow> bool" where
  "makerPriced sd m [] = True"
| "makerPriced sd m (t # ts) =
     (bestOpp sd m = Some (t_price t) \<and>
      headUser m (t_price t) = Some (if sd = Buy then t_seller t else t_buyer t) \<and>
      makerPriced sd (applyTrade t m) ts)"

subsection \<open>Reading the session state\<close>







subsection \<open>Books and sessions of the scenarios\<close>

text \<open>Scenario 4 of the specification: 2 units offered at 10.0 and 3 at 10.1.\<close>

definition scenario4 :: orderBook where
  "scenario4 = runOps [OpPlaceLimit ''U1'' Sell 10 2, OpPlaceLimit ''U3'' Sell (101 / 10) 3]
                 (newOrderBook ''A'' (1 / 10) 100)"

text \<open>Scenario 5 of the specification: limit 5, U2 long 3 after one cross with U1.\<close>

definition scenario5 :: orderBook where
  "scenario5 = runOps [OpPlaceLimit ''U1'' Sell 10 3, OpPlaceLimit ''U2'' Buy 10 3]
                 (newOrderBook ''A'' (1 / 10) 5)"

text \<open>
  The variant of scenario 6: limit 10, U2 long 3, and 20 units offered at 10.0 (two orders
  of 10, the most a flat user may rest under that limit).
\<close>

definition scenario6 :: orderBook where
  "scenario6 = runOps [OpPlaceLimit ''U1'' Sell 10 3, OpPlaceLimit ''U2'' Buy 10 3,
                       OpPlaceLimit ''U3'' Sell 10 10, OpPlaceLimit ''U4'' Sell 10 10]
                 (newOrderBook ''A'' (1 / 10) 10)"

text \<open>Scenario 7 of the specification, with a second ask level and a bid.\<close>

definition scenario7 :: orderBook where
  "scenario7 = runOps [OpPlaceLimit ''U1'' Sell 10 3, OpPlaceLimit ''U1'' Sell (101 / 10) 2,
                       OpPlaceLimit ''U3'' Buy (99 / 10) 1]
                 (newOrderBook ''A'' (1 / 10) 100)"

text \<open>
  Scenario 9 of the specification, with an ask added: U1 rests two bids at 9.9, U2 an ask
  at 10.1.
\<close>

definition scenario9 :: "bookOp list" where
  "scenario9 = [OpPlaceLimit ''U1'' Buy (99 / 10) 5, OpPlaceLimit ''U1'' Buy (99 / 10) 3,
                OpPlaceLimit ''U2'' Sell (101 / 10) 4]"




subsection \<open>Unfolding and induction rules of the matching functions\<close>

lemma matchIncoming_unfold:
  "matchIncoming ord b =
     (case nextLevel ord b of
        None \<Rightarrow> (ord, b, [])
      | Some (px, q) \<Rightarrow>
          (case matchLevel px ord q b of
             (ord1, q1, b1, ts1) \<Rightarrow>
               (case matchIncoming ord1 (afterLevel ord px q1 b b1) of
                  (ord2, b3, ts2) \<Rightarrow> (ord2, b3, ts1 @ ts2))))"
  by (subst matchIncoming.simps)
     (simp add: nextLevel_def afterLevel_def Let_def split: option.splits prod.splits)

lemma matchIncoming_cases [case_names Stop Level]:
  assumes "\<And>ord b. nextLevel ord b = None \<Longrightarrow> P ord b"
    and "\<And>ord b px q ord1 q1 b1 ts1.
           nextLevel ord b = Some (px, q) \<Longrightarrow>
           matchLevel px ord q b = (ord1, q1, b1, ts1) \<Longrightarrow>
           P ord1 (afterLevel ord px q1 b b1) \<Longrightarrow> P ord b"
  shows "P ord b"
proof (induction ord b rule: matchIncoming.induct)
  case (1 ord b)
  show ?case
  proof (cases "nextLevel ord b")
    case None
    then show ?thesis by (rule assms(1))
  next
    case (Some a)
    obtain px q where a: "a = (px, q)" by (cases a)
    obtain ord1 q1 b1 ts1 where ml: "matchLevel px ord q b = (ord1, q1, b1, ts1)"
      by (cases "matchLevel px ord q b")
    from Some a have nl: "nextLevel ord b = Some (px, q)" by simp
    have "P ord1 (afterLevel ord px q1 b b1)"
      unfolding afterLevel_def
      apply (rule "1.IH" [OF refl _ _ refl _ _ ml [symmetric] refl refl refl refl])
      using nl
      by (auto simp: nextLevel_def Let_def split: if_splits option.splits)
    with nl ml show ?thesis by (rule assms(2))
  qed
qed

lemma takeLevel_Nil: "takeLevel u sd px n [] b = (n, [], b, [])"
  by (subst takeLevel.simps) simp

lemma takeLevel_Cons:
  "takeLevel u sd px n (maker # rest) b =
     (if \<not> n > 0 then (n, maker # rest, b, [])
      else if \<not> limitOk sd u n maker b then (n, maker # rest, afterCheck sd u n maker b, [])
      else
        (case takeLevel u sd px (n - min n (o_leaves maker)) (restQueue n maker rest)
                (afterFill px sd u n maker b) of
           (n'', q'', b3, ts) \<Rightarrow> (n'', q'', b3, fillTrade px sd u n maker b # ts)))"
  by (subst takeLevel.simps)
     (simp add: Let_def limitOk_def afterCheck_def afterFill_def fillTrade_def restQueue_def
        split: prod.splits)

lemma takeLevel_cases [case_names Nil Done Reject Fill]:
  assumes "\<And>n b. P n [] b"
    and "\<And>n maker rest b. \<not> n > 0 \<Longrightarrow> P n (maker # rest) b"
    and "\<And>n maker rest b. n > 0 \<Longrightarrow> \<not> limitOk sd u n maker b \<Longrightarrow> P n (maker # rest) b"
    and "\<And>n maker rest b. n > 0 \<Longrightarrow> limitOk sd u n maker b \<Longrightarrow>
           P (n - min n (o_leaves maker)) (restQueue n maker rest) (afterFill px sd u n maker b) \<Longrightarrow>
           P n (maker # rest) b"
  shows "P n q b"
  using assms
proof (induction u sd px n q b rule: takeLevel.induct)
  case (1 u sd px n q b)
  note r_nil = "1.prems"(1) and r_done = "1.prems"(2) and r_reject = "1.prems"(3)
    and r_fill = "1.prems"(4)
  show ?case
  proof (cases q)
    case Nil
    then show ?thesis by (simp add: r_nil)
  next
    case (Cons maker rest)
    show ?thesis
    proof (cases "n > 0")
      case False
      then show ?thesis by (simp add: Cons r_done)
    next
      case True
      show ?thesis
      proof (cases "limitOk sd u n maker b")
        case False
        with True show ?thesis by (simp add: Cons r_reject)
      next
        case ok: True
        obtain b1 okv where c: "checkPosLimit u sd (min n (o_leaves maker)) b = (b1, okv)"
          by (cases "checkPosLimit u sd (min n (o_leaves maker)) b")
        obtain b2 t where f: "fill sd u maker (min n (o_leaves maker)) px b1 = (b2, t)"
          by (cases "fill sd u maker (min n (o_leaves maker)) px b1")
        from ok c have okv by (simp add: limitOk_def)
        have "P (n - min n (o_leaves maker)) (restQueue n maker rest) (afterFill px sd u n maker b)"
          using "1.IH" [OF Cons _ refl c [symmetric] refl _ refl refl f [symmetric] refl refl
                  r_nil r_done r_reject r_fill]
            True \<open>okv\<close> c f
          by (simp add: restQueue_def afterFill_def afterCheck_def)
        with True ok show ?thesis unfolding Cons by (rule r_fill)
      qed
    qed
  qed
qed

subsection \<open>The ledger sums\<close>

lemma update_absent: "map_of ps u = None \<Longrightarrow> AList.update u v ps = ps @ [(u, v)]"
  by (induction ps) (auto split: if_splits)























lemma positions_setMakerMap [simp]: "positions (setMakerMap sd m b) = positions b"
  by (simp add: setMakerMap_def)









subsection \<open>Rejection by the pre-check\<close>

lemma pos_snd_fst: "snd (pos v (fst (pos u ps))) = snd (pos v ps)"
  by (auto simp: pos_def AList.update_conv' split: option.splits)

lemma pos_fst_cases:
  "fst (pos u ps) = (if map_of ps u = None then ps @ [(u, \<lparr>qty = 0, cash = 0\<rparr>)] else ps)"
  by (auto simp: pos_def update_absent split: option.splits)

lemma placeLimit_accept_id:
  "fst (snd (placeLimit u sd price n b)) = Accepted i \<Longrightarrow> i = orderIdSeq b"
  by (auto simp: placeLimit_def checkPosLimit_def Let_def case_prod_beta split: if_splits)

lemma scenario5_eval:
  "scenario5 =
     \<lparr>symbol = ''A'', tickSize = 1 / 10, posLimit = 5, bids = [], asks = [], orderIdSeq = 3,
      positions = [(''U1'', \<lparr>qty = - 3, cash = 30\<rparr>), (''U2'', \<lparr>qty = 3, cash = - 30\<rparr>)],
      trades = [\<lparr>t_symbol = ''A'', t_price = 10, t_qty = 3, t_buyer = ''U2'', t_seller = ''U1''\<rparr>]\<rparr>"
  unfolding scenario5_def by code_simp

text \<open>
  Claim C3, as the code has it. When \<open>|position \<plusminus> qty|\<close> exceeds \<open>posLimit\<close>,
  \<^verbatim>\<open>placeLimit\<close> returns the rejection \<^verbatim>\<open>pos_limit\<close> and records no trade; the books, the
  trade list and the order id counter are unchanged, so the next accepted order gets the id
  the rejected call would have got; every position that \<^verbatim>\<open>getPosPublic\<close> reads is
  unchanged. The ledger itself is unchanged when the caller has an entry, and gains the
  entry \<open>{qty: 0, cash: 0}\<close> of the caller when the caller had none: \<^verbatim>\<open>_checkPosLimit\<close>
  reads the position through \<^verbatim>\<open>_pos\<close>, which creates it on first touch.
\<close>

theorem placeLimit_reject:
  assumes "\<not> \<bar>if sd = Buy then qty (snd (getPosPublic u b)) + n
                          else qty (snd (getPosPublic u b)) - n\<bar> \<le> posLimit b"
  shows "placeLimit u sd price n b
           = (b\<lparr>positions := positions (fst (placeLimit u sd price n b))\<rparr>,
              Rejected ''pos_limit'', [])
         \<and> positions (fst (placeLimit u sd price n b))
             = (if map_of (positions b) u = None
                then positions b @ [(u, \<lparr>qty = 0, cash = 0\<rparr>)] else positions b)
         \<and> (\<forall>v. snd (getPosPublic v (fst (placeLimit u sd price n b))) = snd (getPosPublic v b))
         \<and> (\<forall>u' sd' price' n' i.
               fst (snd (placeLimit u' sd' price' n' (fst (placeLimit u sd price n b)))) = Accepted i
               \<longrightarrow> i = orderIdSeq b)"
proof -
  from assms have rej: "\<not> snd (checkPosLimit u sd n b)"
    by (simp add: checkPosLimit_def getPosPublic_def Let_def case_prod_beta split: if_splits)
  then have pl: "placeLimit u sd price n b
                   = (b\<lparr>positions := fst (pos u (positions b))\<rparr>, Rejected ''pos_limit'', [])"
    by (simp add: placeLimit_def checkPosLimit_def Let_def case_prod_beta)
  have "i = orderIdSeq b"
    if "fst (snd (placeLimit u' sd' price' n' (b\<lparr>positions := fst (pos u (positions b))\<rparr>))) = Accepted i"
    for u' sd' price' n' i
    using placeLimit_accept_id [OF that] by simp
  then show ?thesis
    unfolding pl
    by (simp add: getPosPublic_def case_prod_beta pos_snd_fst pos_fst_cases [symmetric])
qed

text \<open>
  Scenario 5: U2, long 3 under a limit of 5, places a buy of 5. The call is rejected, the
  book is the same book, and the next order, accepted, gets id 3.
\<close>

theorem placeLimit_reject_witness:
  "placeLimit ''U2'' Buy 99 5 scenario5 = (scenario5, Rejected ''pos_limit'', [])
   \<and> fst (snd (placeLimit ''U3'' Sell 10 1 (fst (placeLimit ''U2'' Buy 99 5 scenario5)))) = Accepted 3"
proof -
  have h: "\<not> \<bar>if Buy = Buy then qty (snd (getPosPublic ''U2'' scenario5)) + 5
                          else qty (snd (getPosPublic ''U2'' scenario5)) - 5\<bar> \<le> posLimit scenario5"
    by (simp add: scenario5_eval getPosPublic_def pos_def)
  have p: "positions scenario5 = [(''U1'', \<lparr>qty = - 3, cash = 30\<rparr>), (''U2'', \<lparr>qty = 3, cash = - 30\<rparr>)]"
    by (simp add: scenario5_eval)
  note r = placeLimit_reject [OF h, of 99]
  from r [THEN conjunct2, THEN conjunct1]
  have q: "positions (fst (placeLimit ''U2'' Buy 99 5 scenario5)) = positions scenario5"
    by (simp add: p)
  from r [THEN conjunct1]
  have "placeLimit ''U2'' Buy 99 5 scenario5
          = (scenario5\<lparr>positions := positions scenario5\<rparr>, Rejected ''pos_limit'', [])"
    by (simp only: q)
  then have 1: "placeLimit ''U2'' Buy 99 5 scenario5 = (scenario5, Rejected ''pos_limit'', [])"
    by simp
  have "fst (snd (placeLimit ''U3'' Sell 10 1 scenario5)) = Accepted 3"
    unfolding scenario5_eval by code_simp
  with 1 show ?thesis by simp
qed

text \<open>
  The claim as stated fails for a caller without an entry: on a new book with limit 100, a
  buy of 101 by U2 is rejected and leaves the entry of U2 in the ledger.
\<close>

theorem placeLimit_reject_touches_ledger:
  "fst (snd (placeLimit ''U2'' Buy 10 101 (newOrderBook ''A'' (1 / 10) 100))) = Rejected ''pos_limit''
   \<and> positions (fst (placeLimit ''U2'' Buy 10 101 (newOrderBook ''A'' (1 / 10) 100)))
       \<noteq> positions (newOrderBook ''A'' (1 / 10) 100)"
  by (simp add: placeLimit_def checkPosLimit_def pos_def newOrderBook_def)

lemma precheck_fails:
  "\<not> snd (checkPosLimit u sd n b) \<Longrightarrow>
     placeLimit u sd price n b
       = (b\<lparr>positions := fst (pos u (positions b))\<rparr>, Rejected ''pos_limit'', [])"
  by (simp add: placeLimit_def checkPosLimit_def Let_def case_prod_beta)

lemma scenario6_eval:
  "scenario6 =
     \<lparr>symbol = ''A'', tickSize = 1 / 10, posLimit = 10, bids = [],
      asks = [(10, [\<lparr>o_id = 3, o_userId = ''U3'', o_side = Sell, o_price = 10, o_qty = 10,
                       o_leaves = 10\<rparr>,
                    \<lparr>o_id = 4, o_userId = ''U4'', o_side = Sell, o_price = 10, o_qty = 10,
                       o_leaves = 10\<rparr>])],
      orderIdSeq = 5,
      positions = [(''U1'', \<lparr>qty = - 3, cash = 30\<rparr>), (''U2'', \<lparr>qty = 3, cash = - 30\<rparr>),
                   (''U3'', \<lparr>qty = 0, cash = 0\<rparr>), (''U4'', \<lparr>qty = 0, cash = 0\<rparr>)],
      trades = [\<lparr>t_symbol = ''A'', t_price = 10, t_qty = 3, t_buyer = ''U2'', t_seller = ''U1''\<rparr>]\<rparr>"
  unfolding scenario6_def by code_simp

text \<open>
  Claim C2, as the code has it. With a limit of 10 and the taker at +3, a buy of 10 does not
  pass the pre-check, which tests the whole quantity: \<open>|3 + 10| = 13 > 10\<close>. The call is
  rejected with \<^verbatim>\<open>pos_limit\<close>, nothing fills, neither side of the book changes (so nothing
  rests) and the taker stays at +3.
\<close>

theorem variant_rejected_by_precheck:
  assumes "posLimit b = 10" and "qty (snd (getPosPublic u b)) = 3"
  shows "snd (placeLimit u Buy price 10 b) = (Rejected ''pos_limit'', [])
         \<and> bids (fst (placeLimit u Buy price 10 b)) = bids b
         \<and> asks (fst (placeLimit u Buy price 10 b)) = asks b
         \<and> qty (snd (getPosPublic u (fst (placeLimit u Buy price 10 b)))) = 3"
proof -
  from assms have "\<not> snd (checkPosLimit u Buy 10 b)"
    by (simp add: checkPosLimit_def getPosPublic_def Let_def case_prod_beta)
  from precheck_fails [OF this] assms(2) show ?thesis
    by (simp add: getPosPublic_def case_prod_beta pos_snd_fst)
qed

theorem variant_rejected_by_precheck_witness:
  "snd (placeLimit ''U2'' Buy 10 10 scenario6) = (Rejected ''pos_limit'', [])
   \<and> asks (fst (placeLimit ''U2'' Buy 10 10 scenario6)) = asks scenario6
   \<and> qty (snd (getPosPublic ''U2'' (fst (placeLimit ''U2'' Buy 10 10 scenario6)))) = 3"
proof -
  have 1: "posLimit scenario6 = 10"
    by (simp add: scenario6_eval)
  have 2: "qty (snd (getPosPublic ''U2'' scenario6)) = 3"
    by (simp add: scenario6_eval getPosPublic_def pos_def)
  from variant_rejected_by_precheck [OF 1 2, of 10] show ?thesis by simp
qed

text \<open>
  The claim as stated fails in its own scenario: the buy of 10 is rejected, the book stays
  as it was, with all 20 units still offered, and no trade is recorded.
\<close>

theorem variant_no_fill:
  "placeLimit ''U2'' Buy 10 10 scenario6 = (scenario6, Rejected ''pos_limit'', [])"
  unfolding scenario6_eval by code_simp

subsection \<open>Cancellation\<close>

lemma length_filter_split:
  "length q - length (filter (\<lambda>x. \<not> P x) q) = length (filter P q)"
  using sum_length_filter_compl [of P q] by simp

lemma cancelAtPrice_absent:
  "map_of (if sd = Buy then bids b else asks b) (snapToTick price (tickSize b)) = None \<Longrightarrow>
     cancelAtPrice u sd price b = (b, 0)"
  by (simp add: cancelAtPrice_def Let_def)

lemma cancelAtPrice_present:
  assumes "map_of (if sd = Buy then bids b else asks b) (snapToTick price (tickSize b)) = Some q"
  shows "snd (cancelAtPrice u sd price b) = length (filter (\<lambda>x. o_userId x = u) q)"
    and "tickSize (fst (cancelAtPrice u sd price b)) = tickSize b"
    and "map_of (if sd = Buy then bids (fst (cancelAtPrice u sd price b))
                 else asks (fst (cancelAtPrice u sd price b))) (snapToTick price (tickSize b))
           = (if filter (\<lambda>x. o_userId x \<noteq> u) q = [] then None
              else Some (filter (\<lambda>x. o_userId x \<noteq> u) q))"
  using assms length_filter_split [of q "\<lambda>x. o_userId x = u"]
  by (auto simp: cancelAtPrice_def Let_def AList.update_conv' AList.delete_conv')

lemma cancelAtPrice_nothing:
  assumes "map_of (if sd = Buy then bids b else asks b) (snapToTick price (tickSize b)) = Some q"
    and "filter (\<lambda>x. o_userId x \<noteq> u) q = q" and "q \<noteq> []"
  shows "cancelAtPrice u sd price b = (b, 0)"
  using assms by (cases "sd = Buy") (simp_all add: cancelAtPrice_def Let_def AList.update_triv)

text \<open>
  Claim C8. \<^verbatim>\<open>cancelAtPrice(u, s, p)\<close> returns the number of orders of \<open>u\<close> resting at
  \<open>(s, snap(p, tick))\<close> and leaves at that price exactly the orders of the other users;
  called again at once, it returns 0 and the book is the book after the first call.
\<close>

theorem cancelAtPrice_idempotent:
  "snd (cancelAtPrice u sd price b)
     = length (filter (\<lambda>x. o_userId x = u) (restingAt sd (snapToTick price (tickSize b)) b))
   \<and> restingAt sd (snapToTick price (tickSize b)) (fst (cancelAtPrice u sd price b))
       = filter (\<lambda>x. o_userId x \<noteq> u) (restingAt sd (snapToTick price (tickSize b)) b)
   \<and> cancelAtPrice u sd price (fst (cancelAtPrice u sd price b))
       = (fst (cancelAtPrice u sd price b), 0)"
proof (cases "map_of (if sd = Buy then bids b else asks b) (snapToTick price (tickSize b))")
  case None
  then show ?thesis
    by (simp add: cancelAtPrice_absent restingAt_def)
next
  case (Some q)
  let ?b1 = "fst (cancelAtPrice u sd price b)"
  let ?f = "filter (\<lambda>x. o_userId x \<noteq> u) q"
  note p = cancelAtPrice_present [OF Some, of u]
  have again: "cancelAtPrice u sd price ?b1 = (?b1, 0)"
  proof (cases "?f = []")
    case True
    with p(2,3) show ?thesis
      by (intro cancelAtPrice_absent) simp
  next
    case False
    with p(2,3)
    have m: "map_of (if sd = Buy then bids ?b1 else asks ?b1) (snapToTick price (tickSize ?b1))
               = Some ?f"
      by simp
    have "filter (\<lambda>x. o_userId x \<noteq> u) ?f = ?f" by simp
    with m False show ?thesis
      by (intro cancelAtPrice_nothing)
  qed
  from p(1,3) Some again show ?thesis
    by (simp add: restingAt_def)
qed

subsection \<open>Empty levels\<close>

lemma set_update_subset: "set (AList.update k v al) \<subseteq> insert (k, v) (set al)"
  by (induction al) auto

lemma set_delete_subset: "set (AList.delete k al) \<subseteq> set al"
  by (induction al) auto

lemma noEmptyLevel_update:
  "noEmptyLevel m \<Longrightarrow> q \<noteq> [] \<Longrightarrow> noEmptyLevel (AList.update px q m)"
  using set_update_subset [of px q m] by (auto simp: noEmptyLevel_def)

lemma noEmptyLevel_delete: "noEmptyLevel m \<Longrightarrow> noEmptyLevel (AList.delete px m)"
  using set_delete_subset [of px m] by (auto simp: noEmptyLevel_def)

lemma noEmptyLevel_storeLevel: "noEmptyLevel m \<Longrightarrow> noEmptyLevel (storeLevel px q m)"
  by (simp add: storeLevel_def noEmptyLevel_update noEmptyLevel_delete)

lemma update_append_absent:
  "map_of m p = None \<Longrightarrow> AList.update p v (m @ [(p, w)]) = m @ [(p, v)]"
  by (induction m) (auto split: if_splits)

lemma pushAtPrice_absent:
  assumes "map_of m p = None"
  shows "pushAtPrice m p ord = m @ [(p, [ord])]"
proof -
  have "map_of (AList.update p [] m) p = Some []"
    by (simp add: AList.update_conv')
  with assms have "pushAtPrice m p ord = AList.update p [ord] m"
    by (simp add: pushAtPrice_def Let_def)
  with assms show ?thesis by (simp add: update_absent)
qed

lemma pushAtPrice_present:
  "map_of m p = Some q \<Longrightarrow> pushAtPrice m p ord = AList.update p (q @ [ord]) m"
  by (simp add: pushAtPrice_def Let_def)

lemma noEmptyLevel_pushAtPrice: "noEmptyLevel m \<Longrightarrow> noEmptyLevel (pushAtPrice m p ord)"
proof (cases "map_of m p")
  case None
  assume "noEmptyLevel m"
  with None show ?thesis by (simp add: pushAtPrice_absent noEmptyLevel_def)
next
  case (Some q)
  assume "noEmptyLevel m"
  with Some show ?thesis by (simp add: pushAtPrice_present noEmptyLevel_update)
qed

lemma noEmptyLevels_setMakerMap:
  "noEmptyLevels b1 \<Longrightarrow> noEmptyLevel m \<Longrightarrow> noEmptyLevels (setMakerMap sd m b1)"
  by (simp add: noEmptyLevels_def setMakerMap_def)

lemma noEmptyLevel_makerMapOf: "noEmptyLevels b \<Longrightarrow> noEmptyLevel (makerMapOf sd b)"
  by (simp add: noEmptyLevels_def makerMapOf_def)

lemma takeLevel_frame:
  "takeLevel u sd px n q b = (n', q', b', ts) \<Longrightarrow>
     bids b' = bids b \<and> asks b' = asks b \<and> symbol b' = symbol b \<and> tickSize b' = tickSize b \<and>
     posLimit b' = posLimit b \<and> orderIdSeq b' = orderIdSeq b"
proof (induction n q b arbitrary: ts rule: takeLevel_cases [where px = px and sd = sd and u = u])
  case (Fill n maker rest b)
  from Fill.prems Fill.hyps obtain ts' where
    "takeLevel u sd px (n - min n (o_leaves maker)) (restQueue n maker rest)
       (afterFill px sd u n maker b) = (n', q', b', ts')"
    by (auto simp: takeLevel_Cons split: prod.splits)
  from Fill.IH [OF this] show ?case
    by (simp add: afterFill_frame)
qed (auto simp: takeLevel_Nil takeLevel_Cons afterCheck_frame)

lemma matchIncoming_noEmptyLevels:
  "matchIncoming ord b = (ord', b', ts) \<Longrightarrow> noEmptyLevels b \<Longrightarrow> noEmptyLevels b'"
proof (induction ord b arbitrary: ts rule: matchIncoming_cases)
  case (Stop ord b)
  then show ?case by (simp add: matchIncoming_unfold)
next
  case (Level ord b px q ord1 q1 b1 ts1)
  from Level.prems(1) Level.hyps obtain ts2 where
    rec: "matchIncoming ord1 (afterLevel ord px q1 b b1) = (ord', b', ts2)"
    by (auto simp: matchIncoming_unfold split: prod.splits)
  from matchLevel_frame [OF Level.hyps(2)] Level.prems(2) have "noEmptyLevels b1"
    by (simp add: noEmptyLevels_def)
  with Level.prems(2) have "noEmptyLevels (afterLevel ord px q1 b b1)"
    unfolding afterLevel_def
    by (intro noEmptyLevels_setMakerMap noEmptyLevel_storeLevel noEmptyLevel_makerMapOf)
  with Level.IH [OF rec] show ?case .
qed

lemma checkPosLimit_frame:
  "bids (fst (checkPosLimit u sd n b)) = bids b" "asks (fst (checkPosLimit u sd n b)) = asks b"
  "symbol (fst (checkPosLimit u sd n b)) = symbol b"
  "tickSize (fst (checkPosLimit u sd n b)) = tickSize b"
  "posLimit (fst (checkPosLimit u sd n b)) = posLimit b"
  "orderIdSeq (fst (checkPosLimit u sd n b)) = orderIdSeq b"
  "trades (fst (checkPosLimit u sd n b)) = trades b"
  by (simp_all add: checkPosLimit_def Let_def case_prod_beta)

lemma placeLimit_noEmptyLevels:
  assumes "noEmptyLevels b"
  shows "noEmptyLevels (fst (placeLimit u sd price n b))"
proof -
  obtain b0 ok where c: "checkPosLimit u sd n b = (b0, ok)"
    by (cases "checkPosLimit u sd n b")
  with checkPosLimit_frame(1,2) [of u sd n b] assms have n0: "noEmptyLevels b0"
    by (simp add: noEmptyLevels_def)
  show ?thesis
  proof (cases ok)
    case False
    with c n0 show ?thesis by (simp add: placeLimit_def)
  next
    case True
    define ord where "ord = newOrder (orderIdSeq b0) u sd (snapToTick price (tickSize b0)) n"
    obtain ord' b2 ts where m: "matchIncoming ord (b0\<lparr>orderIdSeq := orderIdSeq b0 + 1\<rparr>) = (ord', b2, ts)"
      by (cases "matchIncoming ord (b0\<lparr>orderIdSeq := orderIdSeq b0 + 1\<rparr>)")
    from n0 have "noEmptyLevels (b0\<lparr>orderIdSeq := orderIdSeq b0 + 1\<rparr>)"
      by (simp add: noEmptyLevels_def)
    from matchIncoming_noEmptyLevels [OF m this] have "noEmptyLevels b2" .
    with c True m show ?thesis
      by (simp add: placeLimit_def Let_def ord_def noEmptyLevels_def noEmptyLevel_pushAtPrice)
  qed
qed

lemma takeAtPrice_noEmptyLevels:
  assumes "noEmptyLevels b"
  shows "noEmptyLevels (fst (takeAtPrice u sd price maxQty b))"
proof (cases "map_of (makerMapOf sd b) (snapToTick price (tickSize b))")
  case None
  with assms show ?thesis by (simp add: takeAtPrice_def Let_def)
next
  case (Some q)
  show ?thesis
  proof (cases "max 0 (if maxQty = 0 then 0 else maxQty) = 0")
    case True
    with Some assms show ?thesis by (simp add: takeAtPrice_def Let_def)
  next
    case False
    obtain n' q' b1 ts where t:
      "takeLevel u sd (snapToTick price (tickSize b)) (max 0 (if maxQty = 0 then 0 else maxQty)) q b
         = (n', q', b1, ts)"
      by (cases "takeLevel u sd (snapToTick price (tickSize b))
                   (max 0 (if maxQty = 0 then 0 else maxQty)) q b")
    from takeLevel_frame [OF t] assms have "noEmptyLevels b1"
      by (simp add: noEmptyLevels_def)
    with assms have "noEmptyLevels (setMakerMap sd
        (storeLevel (snapToTick price (tickSize b)) q' (makerMapOf sd b)) b1)"
      by (intro noEmptyLevels_setMakerMap noEmptyLevel_storeLevel noEmptyLevel_makerMapOf)
    with Some False t assms show ?thesis by (auto simp: takeAtPrice_def Let_def)
  qed
qed

lemma cancelAtPrice_noEmptyLevels:
  "noEmptyLevels b \<Longrightarrow> noEmptyLevels (fst (cancelAtPrice u sd price b))"
  by (auto simp: cancelAtPrice_def Let_def noEmptyLevels_def noEmptyLevel_update
        noEmptyLevel_delete split: option.splits)

lemma applyOp_noEmptyLevels: "noEmptyLevels b \<Longrightarrow> noEmptyLevels (applyOp c b)"
  by (cases c)
     (simp_all add: placeLimit_noEmptyLevels takeAtPrice_noEmptyLevels cancelAtPrice_noEmptyLevels)

lemma runOps_noEmptyLevels: "noEmptyLevels b \<Longrightarrow> noEmptyLevels (runOps cs b)"
  by (induction cs arbitrary: b) (simp_all add: applyOp_noEmptyLevels)

text \<open>
  Claim C9. After any sequence of calls of \<^verbatim>\<open>placeLimit\<close>, \<^verbatim>\<open>takeAtPrice\<close> and
  \<^verbatim>\<open>cancelAtPrice\<close> on a new book, every price key of the bids and of the asks maps to
  a queue that is not empty: a level whose last order leaves is deleted with its key.
\<close>

theorem no_empty_level:
  "noEmptyLevels (runOps cs (newOrderBook symb tick plim))"
  by (rule runOps_noEmptyLevels) (simp add: noEmptyLevels_def noEmptyLevel_def newOrderBook_def)

text \<open>
  In scenario 9 the bids hold the one level 9.9, not empty; cancelling the bids of U1 at 9.9
  deletes the level, and taking the 4 units offered at 10.1 deletes that level.
\<close>

theorem no_empty_level_witness:
  "snd (hd (bids (runOps scenario9 (newOrderBook ''A'' (1 / 10) 100)))) \<noteq> []
   \<and> map fst (bids (runOps scenario9 (newOrderBook ''A'' (1 / 10) 100))) = [99 / 10]
   \<and> bids (runOps (scenario9 @ [OpCancelAtPrice ''U1'' Buy (99 / 10)])
              (newOrderBook ''A'' (1 / 10) 100)) = []
   \<and> asks (runOps (scenario9 @ [OpTakeAtPrice ''U3'' Buy (101 / 10) 4])
              (newOrderBook ''A'' (1 / 10) 100)) = []"
proof -
  have keys: "map fst (bids (runOps scenario9 (newOrderBook ''A'' (1 / 10) 100))) = [99 / 10]"
    unfolding scenario9_def by code_simp
  then have "bids (runOps scenario9 (newOrderBook ''A'' (1 / 10) 100)) \<noteq> []"
    by auto
  with no_empty_level [of scenario9 "''A''" "1 / 10" 100]
  have "snd (hd (bids (runOps scenario9 (newOrderBook ''A'' (1 / 10) 100)))) \<noteq> []"
    by (simp add: noEmptyLevels_def noEmptyLevel_def)
  moreover
  have "bids (runOps (scenario9 @ [OpCancelAtPrice ''U1'' Buy (99 / 10)])
              (newOrderBook ''A'' (1 / 10) 100)) = []"
    unfolding scenario9_def by code_simp
  moreover
  have "asks (runOps (scenario9 @ [OpTakeAtPrice ''U3'' Buy (101 / 10) 4])
              (newOrderBook ''A'' (1 / 10) 100)) = []"
    unfolding scenario9_def by code_simp
  ultimately show ?thesis
    using keys by simp
qed

subsection \<open>Taking at one price\<close>

lemma fillTrade_simps [simp]:
  "t_price (fillTrade px sd u n maker b) = px"
  "t_qty (fillTrade px sd u n maker b) = min n (o_leaves maker)"
  "t_buyer (fillTrade px sd u n maker b) = (if sd = Buy then u else o_userId maker)"
  "t_seller (fillTrade px sd u n maker b) = (if sd = Sell then u else o_userId maker)"
  "t_symbol (fillTrade px sd u n maker b) = symbol b"
  by (simp_all add: fillTrade_def fill_def Let_def afterCheck_frame)

lemma takeLevel_prices:
  "takeLevel u sd px n q b = (n', q', b', ts) \<Longrightarrow> \<forall>t \<in> set ts. t_price t = px"
proof (induction n q b arbitrary: ts rule: takeLevel_cases [where px = px and sd = sd and u = u])
  case (Fill n maker rest b)
  from Fill.prems Fill.hyps obtain ts' where
    rec: "takeLevel u sd px (n - min n (o_leaves maker)) (restQueue n maker rest)
            (afterFill px sd u n maker b) = (n', q', b', ts')"
    and ts: "ts = fillTrade px sd u n maker b # ts'"
    by (auto simp: takeLevel_Cons split: prod.splits)
  from Fill.IH [OF rec] ts show ?case by simp
qed (auto simp: takeLevel_Nil takeLevel_Cons)

lemma map_of_storeLevel_other: "p \<noteq> px \<Longrightarrow> map_of (storeLevel px q m) p = map_of m p"
  by (simp add: storeLevel_def AList.update_conv' AList.delete_conv')

lemma makerMapOf_setMakerMap [simp]: "makerMapOf sd (setMakerMap sd m b) = m"
  by (simp add: makerMapOf_def setMakerMap_def)

lemma ownMapOf_setMakerMap [simp]: "ownMapOf sd (setMakerMap sd m b) = ownMapOf sd b"
  by (simp add: ownMapOf_def setMakerMap_def)

lemma takeAtPrice_absent:
  "map_of (makerMapOf sd b) (snapToTick price (tickSize b)) = None \<Longrightarrow>
     takeAtPrice u sd price maxQty b = (b, Ret0, [])"
  by (simp add: takeAtPrice_def Let_def)

lemma takeAtPrice_cases:
  obtains (Untouched) "takeAtPrice u sd price maxQty b = (b, Ret0, [])"
  | (Taken) q n' q' b1 ts where
      "map_of (makerMapOf sd b) (snapToTick price (tickSize b)) = Some q"
      "max 0 (if maxQty = 0 then 0 else maxQty) \<noteq> 0"
      "takeLevel u sd (snapToTick price (tickSize b)) (max 0 (if maxQty = 0 then 0 else maxQty)) q b
         = (n', q', b1, ts)"
      "takeAtPrice u sd price maxQty b
         = (setMakerMap sd (storeLevel (snapToTick price (tickSize b)) q' (makerMapOf sd b)) b1,
            RetTrue, ts)"
proof (cases "map_of (makerMapOf sd b) (snapToTick price (tickSize b))")
  case None
  then show ?thesis by (intro Untouched) (simp add: takeAtPrice_def Let_def)
next
  case (Some q)
  show ?thesis
  proof (cases "max 0 (if maxQty = 0 then 0 else maxQty) = 0")
    case True
    with Some show ?thesis by (intro Untouched) (simp add: takeAtPrice_def Let_def)
  next
    case False
    obtain n' q' b1 ts where t:
      "takeLevel u sd (snapToTick price (tickSize b)) (max 0 (if maxQty = 0 then 0 else maxQty)) q b
         = (n', q', b1, ts)"
      by (cases "takeLevel u sd (snapToTick price (tickSize b))
                   (max 0 (if maxQty = 0 then 0 else maxQty)) q b")
    show ?thesis
    proof (rule Taken [OF Some False t])
      from Some False t show "takeAtPrice u sd price maxQty b
         = (setMakerMap sd (storeLevel (snapToTick price (tickSize b)) q' (makerMapOf sd b)) b1,
            RetTrue, ts)"
        by (auto simp: takeAtPrice_def Let_def)
    qed
  qed
qed

text \<open>
  Claim C6. \<^verbatim>\<open>takeAtPrice(userId, side, price, maxQty)\<close> works on the one level of the
  opposite side at \<open>snap(price, tick)\<close>: when that level is absent it returns 0 and changes
  nothing; every trade it records has the snapped price; every other level of the opposite
  side, and the whole of the other side, is as before.
\<close>

theorem takeAtPrice_one_level:
  "(map_of (makerMapOf sd b) (snapToTick price (tickSize b)) = None \<longrightarrow>
      takeAtPrice u sd price maxQty b = (b, Ret0, []))
   \<and> (\<forall>t \<in> set (snd (snd (takeAtPrice u sd price maxQty b))).
         t_price t = snapToTick price (tickSize b))
   \<and> (\<forall>p. p \<noteq> snapToTick price (tickSize b) \<longrightarrow>
         map_of (makerMapOf sd (fst (takeAtPrice u sd price maxQty b))) p
           = map_of (makerMapOf sd b) p)
   \<and> ownMapOf sd (fst (takeAtPrice u sd price maxQty b)) = ownMapOf sd b"
proof (cases u sd price maxQty b rule: takeAtPrice_cases)
  case Untouched
  then show ?thesis by simp
next
  case (Taken q n' q' b1 ts)
  from takeLevel_frame [OF Taken(3)] have "makerMapOf sd b1 = makerMapOf sd b"
    "ownMapOf sd b1 = ownMapOf sd b"
    by (simp_all add: makerMapOf_def ownMapOf_def)
  with takeLevel_prices [OF Taken(3)] Taken(1,4) show ?thesis
    by (simp add: map_of_storeLevel_other)
qed

lemma scenario7_eval:
  "scenario7 =
     \<lparr>symbol = ''A'', tickSize = 1 / 10, posLimit = 100,
      bids = [(99 / 10, [\<lparr>o_id = 3, o_userId = ''U3'', o_side = Buy, o_price = 99 / 10,
                           o_qty = 1, o_leaves = 1\<rparr>])],
      asks = [(10, [\<lparr>o_id = 1, o_userId = ''U1'', o_side = Sell, o_price = 10, o_qty = 3,
                       o_leaves = 3\<rparr>]),
              (101 / 10, [\<lparr>o_id = 2, o_userId = ''U1'', o_side = Sell, o_price = 101 / 10,
                            o_qty = 2, o_leaves = 2\<rparr>])],
      orderIdSeq = 4,
      positions = [(''U1'', \<lparr>qty = 0, cash = 0\<rparr>), (''U3'', \<lparr>qty = 0, cash = 0\<rparr>)],
      trades = []\<rparr>"
  unfolding scenario7_def by code_simp

text \<open>
  In scenario 7 a take at 10.2, where nothing is offered, returns 0; a take of 5 at 10.0
  trades the 3 units there at 10.0, deletes that level, and leaves the level at 10.1 and the
  bids as they were.
\<close>

theorem takeAtPrice_one_level_witness:
  "takeAtPrice ''U2'' Buy (102 / 10) 5 scenario7 = (scenario7, Ret0, [])
   \<and> map t_price (snd (snd (takeAtPrice ''U2'' Buy 10 5 scenario7))) = [10]
   \<and> map t_qty (snd (snd (takeAtPrice ''U2'' Buy 10 5 scenario7))) = [3]
   \<and> map_of (asks (fst (takeAtPrice ''U2'' Buy 10 5 scenario7))) 10 = None
   \<and> map_of (asks (fst (takeAtPrice ''U2'' Buy 10 5 scenario7))) (101 / 10)
       = map_of (asks scenario7) (101 / 10)
   \<and> bids (fst (takeAtPrice ''U2'' Buy 10 5 scenario7)) = bids scenario7"
proof -
  have snap2: "snapToTick 10 (tickSize scenario7) = 10"
    by (simp add: scenario7_eval snapToTick_def math_round_def)
  have absent: "map_of (makerMapOf Buy scenario7) (snapToTick (102 / 10) (tickSize scenario7)) = None"
    by (simp add: scenario7_eval makerMapOf_def snapToTick_def math_round_def)
  from takeAtPrice_one_level [THEN conjunct1, rule_format, OF absent]
  have 1: "takeAtPrice ''U2'' Buy (102 / 10) 5 scenario7 = (scenario7, Ret0, [])" .
  have ev: "map t_price (snd (snd (takeAtPrice ''U2'' Buy 10 5 scenario7))) = [10]"
    "map t_qty (snd (snd (takeAtPrice ''U2'' Buy 10 5 scenario7))) = [3]"
    "map_of (asks (fst (takeAtPrice ''U2'' Buy 10 5 scenario7))) 10 = None"
    unfolding scenario7_eval by code_simp+
  note t = takeAtPrice_one_level [of Buy scenario7 10 "''U2''" 5]
  from t [THEN conjunct2, THEN conjunct2, THEN conjunct1, rule_format, of "101 / 10"]
  have 2: "map_of (asks (fst (takeAtPrice ''U2'' Buy 10 5 scenario7))) (101 / 10)
             = map_of (asks scenario7) (101 / 10)"
    by (simp add: snap2 makerMapOf_def)
  from t [THEN conjunct2, THEN conjunct2, THEN conjunct2]
  have 3: "bids (fst (takeAtPrice ''U2'' Buy 10 5 scenario7)) = bids scenario7"
    by (simp add: ownMapOf_def)
  from 1 ev 2 3 show ?thesis by simp
qed

subsection \<open>The quantity of a click trade\<close>





subsection \<open>Settled markets\<close>


lemma all_snd_lookup:
  "\<forall>e \<in> set al. P (snd e) \<Longrightarrow> map_of al k = Some v \<Longrightarrow> P v"
  by (metis map_of_SomeD snd_conv)



















subsection \<open>Self-matching\<close>









lemma placeLimit_accepted:
  assumes "checkPosLimit u sd n b = (b0, True)"
    and "ord = newOrder (orderIdSeq b0) u sd (snapToTick price (tickSize b0)) n"
    and "b1 = b0\<lparr>orderIdSeq := orderIdSeq b0 + 1\<rparr>"
    and "matchIncoming ord b1 = (ord', b2, ts)"
  shows "placeLimit u sd price n b =
           ((if o_leaves ord' > 0
             then (if sd = Buy then b2\<lparr>bids := pushAtPrice (bids b2) (o_price ord') ord'\<rparr>
                   else b2\<lparr>asks := pushAtPrice (asks b2) (o_price ord') ord'\<rparr>)
             else b2),
            Accepted (orderIdSeq b0), ts)"
  using assms by (simp add: placeLimit_def Let_def)




subsection \<open>The price of a trade\<close>

lemma restQueue_min: "restQueue (min n (o_leaves maker)) maker rest = restQueue n maker rest"
  by (simp add: restQueue_def)

lemma keys_update_present:
  "map_of m k = Some v \<Longrightarrow> map fst (AList.update k w m) = map fst m"
  by (induction m) (auto split: if_splits)

lemma bestOpp_update_present:
  "map_of m k = Some v \<Longrightarrow> bestOpp sd (AList.update k w m) = bestOpp sd m"
  by (auto simp: bestOpp_def bestAsk_def bestBid_def keys_update_present)

lemma storeLevel_again:
  "storeLevel px q1 (AList.update px q' m) = storeLevel px q1 m"
  by (simp add: storeLevel_def AList.delete_update_same)

lemma matchLevel_replay:
  assumes "matchLevel px ord q b = (ord1, q1, b1, ts1)"
    and "map_of m px = Some q" and "q \<noteq> []"
    and "bestOpp (o_side ord) m = Some px"
    and "o_side ord = Buy \<or> o_side ord = Sell"
  shows "makerPriced (o_side ord) m (ts1 @ ts2)
           \<longleftrightarrow> makerPriced (o_side ord) (storeLevel px q1 m) ts2"
  using assms
proof (induction ord q b arbitrary: m ts1 rule: matchLevel_cases [where px = px])
  case (Nil ord b)
  then show ?case by simp
next
  case (Done ord maker rest b)
  then show ?case by (simp add: matchLevel_Cons storeLevel_def AList.update_triv)
next
  case (Reject ord maker rest b)
  then show ?case by (auto simp: matchLevel_Cons storeLevel_def AList.update_triv)
next
  case (Fill ord maker rest b)
  let ?sd = "o_side ord"
  let ?t = "fillTrade px ?sd (o_userId ord) (o_leaves ord) maker b"
  let ?q' = "restQueue (o_leaves ord) maker rest"
  from Fill.prems(1) Fill.hyps obtain ts' where
    rec: "matchLevel px (restOrder ord maker) ?q'
            (afterFill px ?sd (o_userId ord) (o_leaves ord) maker b) = (ord1, q1, b1, ts')"
    and ts1: "ts1 = ?t # ts'"
    by (auto simp: matchLevel_Cons split: prod.splits)
  have side: "o_side (restOrder ord maker) = ?sd" by (simp add: restOrder_def)
  have ap: "applyTrade ?t m = storeLevel px ?q' m"
    using Fill.prems(2) by (simp add: applyTrade_def restQueue_min)
  have hd: "bestOpp ?sd m = Some (t_price ?t)"
    "headUser m (t_price ?t) = Some (if ?sd = Buy then t_seller ?t else t_buyer ?t)"
    using Fill.prems(2,4,5) by (auto simp: headUser_def)
  have "makerPriced ?sd (storeLevel px ?q' m) (ts' @ ts2)
          \<longleftrightarrow> makerPriced ?sd (storeLevel px q1 m) ts2"
  proof (cases "?q' = []")
    case True
    with rec have "ts' = []" "q1 = []" by (simp_all add: matchLevel_Nil)
    with True show ?thesis by simp
  next
    case False
    then have st: "storeLevel px ?q' m = AList.update px ?q' m"
      by (simp add: storeLevel_def)
    have "makerPriced (o_side (restOrder ord maker)) (AList.update px ?q' m) (ts' @ ts2)
            \<longleftrightarrow> makerPriced (o_side (restOrder ord maker))
                  (storeLevel px q1 (AList.update px ?q' m)) ts2"
      using Fill.prems(2,4,5) False
      by (intro Fill.IH [OF rec])
         (simp_all add: AList.update_conv' bestOpp_update_present side)
    then show ?thesis by (simp add: st side storeLevel_again)
  qed
  with hd ap show ?case by (simp add: ts1)
qed

lemma nextLevel_SomeD:
  assumes "nextLevel ord b = Some (px, q)"
  shows "bestOpp (o_side ord) (makerMapOf (o_side ord) b) = Some px"
    and "map_of (makerMapOf (o_side ord) b) px = Some q"
    and "o_side ord = Buy \<or> o_side ord = Sell"
  using assms
  by (auto simp: nextLevel_def bestOpp_def Let_def split: if_splits option.splits)

lemma makerMapOf_afterLevel:
  "matchLevel px ord q b = (ord1, q1, b1, ts1) \<Longrightarrow>
     makerMapOf (o_side ord1) (afterLevel ord px q1 b b1)
       = storeLevel px q1 (makerMapOf (o_side ord) b)"
  by (drule matchLevel_frame) (simp add: afterLevel_def)

lemma matchIncoming_makerPriced:
  "matchIncoming ord b = (ord', b', ts) \<Longrightarrow> noEmptyLevel (makerMapOf (o_side ord) b) \<Longrightarrow>
     makerPriced (o_side ord) (makerMapOf (o_side ord) b) ts"
proof (induction ord b arbitrary: ts rule: matchIncoming_cases)
  case (Stop ord b)
  then show ?case by (simp add: matchIncoming_unfold)
next
  case (Level ord b px q ord1 q1 b1 ts1)
  let ?m = "makerMapOf (o_side ord) b"
  from Level.prems(1) Level.hyps obtain ts2 where
    rec: "matchIncoming ord1 (afterLevel ord px q1 b b1) = (ord', b', ts2)"
    and ts: "ts = ts1 @ ts2"
    by (auto simp: matchIncoming_unfold split: prod.splits)
  note nl = nextLevel_SomeD [OF Level.hyps(1)]
  from Level.prems(2) nl(2) have ne: "q \<noteq> []"
    unfolding noEmptyLevel_def by (rule all_snd_lookup)
  from matchLevel_frame [OF Level.hyps(2)] have side: "o_side ord1 = o_side ord" by simp
  have mm: "makerMapOf (o_side ord1) (afterLevel ord px q1 b b1) = storeLevel px q1 ?m"
    using Level.hyps(2) by (rule makerMapOf_afterLevel)
  have "noEmptyLevel (storeLevel px q1 ?m)"
    using Level.prems(2) by (rule noEmptyLevel_storeLevel)
  with Level.IH [OF rec] mm side
  have "makerPriced (o_side ord) (storeLevel px q1 ?m) ts2" by simp
  with matchLevel_replay [OF Level.hyps(2) nl(2) ne nl(1) nl(3), of ts2] ts
  show ?case by simp
qed

text \<open>
  Claim C5. Every trade that \<^verbatim>\<open>placeLimit\<close> records has the price of the level its maker
  rests at, which is the best opposite price at the moment of the fill: replayed in order on
  the maker side of the book before the call (with no empty level, as in every reachable
  book), each trade has the best price of that side as its price and the head of that level
  as its maker. The limit price of the incoming order decides only whether the loop goes on.
\<close>

theorem trade_at_maker_price:
  assumes "noEmptyLevel (makerMapOf sd b)"
  shows "makerPriced sd (makerMapOf sd b) (snd (snd (placeLimit u sd price n b)))"
proof -
  obtain b0 ok where c: "checkPosLimit u sd n b = (b0, ok)"
    by (cases "checkPosLimit u sd n b")
  show ?thesis
  proof (cases ok)
    case False
    with c show ?thesis by (simp add: placeLimit_def)
  next
    case True
    define ord where "ord = newOrder (orderIdSeq b0) u sd (snapToTick price (tickSize b0)) n"
    define b1 where "b1 = b0\<lparr>orderIdSeq := orderIdSeq b0 + 1\<rparr>"
    obtain ord' b2 ts where mi: "matchIncoming ord b1 = (ord', b2, ts)"
      by (cases "matchIncoming ord b1")
    from checkPosLimit_frame(1,2) [of u sd n b] c
    have mm: "makerMapOf (o_side ord) b1 = makerMapOf sd b"
      by (simp add: makerMapOf_def ord_def b1_def newOrder_def)
    have sd: "o_side ord = sd" by (simp add: ord_def newOrder_def)
    from matchIncoming_makerPriced [OF mi] assms mm sd
    have "makerPriced sd (makerMapOf sd b) ts" by simp
    moreover from c True have "checkPosLimit u sd n b = (b0, True)" by simp
    note placeLimit_accepted [OF this ord_def b1_def mi]
    ultimately show ?thesis by simp
  qed
qed

lemma scenario4_eval:
  "scenario4 =
     \<lparr>symbol = ''A'', tickSize = 1 / 10, posLimit = 100, bids = [],
      asks = [(10, [\<lparr>o_id = 1, o_userId = ''U1'', o_side = Sell, o_price = 10, o_qty = 2,
                       o_leaves = 2\<rparr>]),
              (101 / 10, [\<lparr>o_id = 2, o_userId = ''U3'', o_side = Sell, o_price = 101 / 10,
                            o_qty = 3, o_leaves = 3\<rparr>])],
      orderIdSeq = 3,
      positions = [(''U1'', \<lparr>qty = 0, cash = 0\<rparr>), (''U3'', \<lparr>qty = 0, cash = 0\<rparr>)],
      trades = []\<rparr>"
  unfolding scenario4_def by code_simp

text \<open>
  Scenario 4: U2 buys 4 with limit 10.1. The first trade is at 10.0, the best ask and the
  price of the order of U1, not at the limit of U2; the second is at 10.1.
\<close>

theorem trade_at_maker_price_witness:
  "snd (snd (placeLimit ''U2'' Buy (101 / 10) 4 scenario4))
     = [\<lparr>t_symbol = ''A'', t_price = 10, t_qty = 2, t_buyer = ''U2'', t_seller = ''U1''\<rparr>,
        \<lparr>t_symbol = ''A'', t_price = 101 / 10, t_qty = 2, t_buyer = ''U2'', t_seller = ''U3''\<rparr>]
   \<and> snapToTick (101 / 10) (tickSize scenario4) = 101 / 10
   \<and> bestAsk (asks scenario4) = Some 10
   \<and> headUser (asks scenario4) 10 = Some ''U1''"
proof -
  have ne: "noEmptyLevel (makerMapOf Buy scenario4)"
    by (simp add: scenario4_eval makerMapOf_def noEmptyLevel_def)
  have ts: "snd (snd (placeLimit ''U2'' Buy (101 / 10) 4 scenario4))
     = [\<lparr>t_symbol = ''A'', t_price = 10, t_qty = 2, t_buyer = ''U2'', t_seller = ''U1''\<rparr>,
        \<lparr>t_symbol = ''A'', t_price = 101 / 10, t_qty = 2, t_buyer = ''U2'', t_seller = ''U3''\<rparr>]"
    unfolding scenario4_eval by code_simp
  have snap: "snapToTick (101 / 10) (tickSize scenario4) = 101 / 10"
    by (simp add: scenario4_eval snapToTick_def math_round_def)
  from trade_at_maker_price [OF ne, of "''U2''" "101 / 10" 4]
  have "bestAsk (asks scenario4) = Some 10 \<and> headUser (asks scenario4) 10 = Some ''U1''"
    unfolding ts by (simp add: bestOpp_def makerMapOf_def)
  with ts snap show ?thesis by simp
qed

end
